theory Spec2Isabelle
  imports Main "HOL-Library.Monad_Syntax"
begin

section \<open>The ordered table \<open>std::map<K, V>\<close>\<close>

text \<open>
  \<open>interval_map.h\<close> keeps its boundaries in a \<open>std::map<K, V>\<close>. The table is embedded as
  the list of its entries in iteration order; an iterator is the position of the entry it
  points to, \<open>begin()\<close> is position \<open>0\<close> and \<open>end()\<close> is the length of the list.
  Dereferencing \<open>end()\<close>, stepping back from \<open>begin()\<close> and erasing an inverted range are
  undefined behaviour in C++: the embedding returns \<open>None\<close> there, so that every theorem
  of the form \<open>\<dots> = Some \<dots>\<close> also says that the code stays clear of them.
\<close>

type_synonym ('k, 'v) table = "('k \<times> 'v) list"

type_synonym iterator = nat

text \<open>\<open>*it\<close>, \<open>it->first\<close>, \<open>it->second\<close>.\<close>

definition deref :: "('k, 'v) table \<Rightarrow> iterator \<Rightarrow> ('k \<times> 'v) option" where
  "deref t it = (if it < length t then Some (t ! it) else None)"

text \<open>\<open>it--\<close>, \<open>--it\<close> and \<open>std::prev(it)\<close>.\<close>

definition iter_dec :: "iterator \<Rightarrow> iterator option" where
  "iter_dec it = (if it = 0 then None else Some (it - 1))"

text \<open>\<open>it++\<close>, on an iterator that points to an entry.\<close>

definition iter_inc :: "('k, 'v) table \<Rightarrow> iterator \<Rightarrow> iterator option" where
  "iter_inc t it = (if it < length t then Some (Suc it) else None)"

text \<open>\<open>upper_bound(key)\<close>: the first entry whose key is greater than \<open>key\<close>.\<close>

fun upper_bound :: "('k::linorder, 'v) table \<Rightarrow> 'k \<Rightarrow> iterator" where
  "upper_bound [] key = 0"
| "upper_bound ((k, v) # t) key = (if key < k then 0 else Suc (upper_bound t key))"

text \<open>
  \<open>insert(pair)\<close> and \<open>insert(hint, pair)\<close>: the entry goes to its place in key order, and
  a table that already has the key is left as it is. The hint changes the cost only.
\<close>

fun map_insert :: "'k::linorder \<times> 'v \<Rightarrow> ('k, 'v) table \<Rightarrow> ('k, 'v) table" where
  "map_insert (key, val) [] = [(key, val)]"
| "map_insert (key, val) ((k, v) # t) =
     (if key < k then (key, val) # (k, v) # t
      else if k < key then (k, v) # map_insert (key, val) t
      else (k, v) # t)"

text \<open>\<open>erase(first, last)\<close>: returns the table and the iterator that follows the erased span.\<close>

definition map_erase ::
  "('k, 'v) table \<Rightarrow> iterator \<Rightarrow> iterator \<Rightarrow> (('k, 'v) table \<times> iterator) option" where
  "map_erase t itFirst itLast =
     (if itFirst \<le> itLast \<and> itLast \<le> length t
      then Some (take itFirst t @ drop itLast t, itFirst)
      else None)"

section \<open>The class \<open>interval_map<K, V>\<close>\<close>

record ('k, 'v) interval_map =
  m_valBegin :: 'v
  m_map :: "('k, 'v) table"

text \<open>The constructor \<open>interval_map(val)\<close>.\<close>

definition interval_map_ctor :: "'v \<Rightarrow> ('k, 'v) interval_map" where
  "interval_map_ctor val = \<lparr>m_valBegin = val, m_map = []\<rparr>"

text \<open>
  The loop of \<open>assign\<close>,
  \<^verbatim>\<open>while (keyBegin < itStart->first && itStart != m_map.begin()) itStart--;\<close>
  which reads the entry before it tests the position.
\<close>

function walk_back :: "('k::linorder, 'v) table \<Rightarrow> 'k \<Rightarrow> iterator \<Rightarrow> iterator option" where
  "walk_back t keyBegin itStart =
     (case deref t itStart of
        None \<Rightarrow> None
      | Some p \<Rightarrow>
          if keyBegin < fst p \<and> itStart \<noteq> 0 then walk_back t keyBegin (itStart - 1)
          else Some itStart)"
  by pat_completeness auto
termination
  by (relation "measure (\<lambda>(t, keyBegin, itStart). itStart)") auto

declare walk_back.simps [simp del]

text \<open>\<open>assign(keyBegin, keyEnd, val)\<close>, statement by statement.\<close>

definition assign ::
  "('k::linorder, 'v) interval_map \<Rightarrow> 'k \<Rightarrow> 'k \<Rightarrow> 'v \<Rightarrow> ('k, 'v) interval_map option" where
  "assign m keyBegin keyEnd val =
     (if \<not> keyBegin < keyEnd then Some m
      else if m_map m = [] then
        Some (m\<lparr>m_map := map_insert (keyEnd, m_valBegin m)
                            (map_insert (keyBegin, val) (m_map m))\<rparr>)
      else do {
        let itEnd = upper_bound (m_map m) keyEnd;
        (itStart, valEnd) \<leftarrow>
          (if itEnd \<noteq> 0 then do {
             it \<leftarrow> iter_dec itEnd;
             p \<leftarrow> deref (m_map m) it;
             Some (it, snd p)
           } else Some (itEnd, m_valBegin m));
        itStart \<leftarrow> walk_back (m_map m) keyBegin itStart;
        p \<leftarrow> deref (m_map m) itStart;
        itStart \<leftarrow>
          (if fst p < keyBegin \<and> itStart \<noteq> itEnd then iter_inc (m_map m) itStart
           else Some itStart);
        differsFromPreviousValue \<leftarrow>
          (if itStart \<noteq> 0 then do {
             it \<leftarrow> iter_dec itStart;
             q \<leftarrow> deref (m_map m) it;
             Some (\<not> (snd q = val))
           } else Some True);
        let differsFromDefault = \<not> (itStart = 0 \<and> val = m_valBegin m);
        (t, it) \<leftarrow> map_erase (m_map m) itStart itEnd;
        let t = (if differsFromPreviousValue \<and> differsFromDefault
                 then map_insert (keyBegin, val) t else t);
        let t = (if \<not> (valEnd = val) then map_insert (keyEnd, valEnd) t else t);
        Some (m\<lparr>m_map := t\<rparr>)
      })"

text \<open>\<open>operator[](key)\<close>, the look-up.\<close>

definition lookup :: "('k::linorder, 'v) interval_map \<Rightarrow> 'k \<Rightarrow> 'v option" where
  "lookup m key =
     (let it = upper_bound (m_map m) key in
      if it = 0 then Some (m_valBegin m)
      else do {
        it \<leftarrow> iter_dec it;
        p \<leftarrow> deref (m_map m) it;
        Some (snd p)
      })"

text \<open>
  \<open>operator[]\<close> is declared \<open>const\<close> and reads the table through \<open>upper_bound\<close> only.
  As a call on the object it returns the value and leaves the object it was given.
\<close>

definition lookup_call ::
  "('k::linorder, 'v) interval_map \<Rightarrow> 'k \<Rightarrow> ('v \<times> ('k, 'v) interval_map) option" where
  "lookup_call m key = do { v \<leftarrow> lookup m key; Some (v, m) }"

text \<open>A sequence of \<open>assign\<close> calls, each a triple \<open>(keyBegin, keyEnd, val)\<close>, run in order.\<close>

fun assigns ::
  "('k::linorder, 'v) interval_map \<Rightarrow> ('k \<times> 'k \<times> 'v) list \<Rightarrow> ('k, 'v) interval_map option" where
  "assigns m [] = Some m"
| "assigns m ((keyBegin, keyEnd, val) # cs) =
     (case assign m keyBegin keyEnd val of
        None \<Rightarrow> None
      | Some m' \<Rightarrow> assigns m' cs)"

section \<open>Notions of the specification\<close>

text \<open>
  The class invariant of \<open>std::map\<close>: the keys are strictly ascending, hence unique.
\<close>

definition sorted_keys :: "('k::linorder, 'v) table \<Rightarrow> bool" where
  "sorted_keys t = sorted_wrt (<) (map fst t)"

text \<open>
  The value that applies at \<open>key\<close>: the value of the last entry whose key is at most \<open>key\<close>,
  the default value when there is none.
\<close>

definition value_at :: "('k::linorder, 'v) interval_map \<Rightarrow> 'k \<Rightarrow> 'v" where
  "value_at m key = last (m_valBegin m # map snd (filter (\<lambda>p. fst p \<le> key) (m_map m)))"

text \<open>
  The value that applies immediately below \<open>key\<close>: the value of the last entry whose key
  is less than \<open>key\<close>, the default value when no entry precedes \<open>key\<close>.
\<close>

definition value_below :: "('k::linorder, 'v) interval_map \<Rightarrow> 'k \<Rightarrow> 'v" where
  "value_below m key = last (m_valBegin m # map snd (filter (\<lambda>p. fst p < key) (m_map m)))"

text \<open>
  The table that \<open>assign\<close> leaves behind on a table that is not empty: the entries below
  \<open>keyBegin\<close>, the new boundaries at \<open>keyBegin\<close> and \<open>keyEnd\<close> where the value changes,
  and the entries above \<open>keyEnd\<close>.
\<close>

definition assigned_table ::
  "('k::linorder, 'v) interval_map \<Rightarrow> 'k \<Rightarrow> 'k \<Rightarrow> 'v \<Rightarrow> ('k, 'v) table" where
  "assigned_table m keyBegin keyEnd val =
     filter (\<lambda>p. fst p < keyBegin) (m_map m) @
     (if value_below m keyBegin = val then [] else [(keyBegin, val)]) @
     (if value_at m keyEnd = val then [] else [(keyEnd, value_at m keyEnd)]) @
     filter (\<lambda>p. keyEnd < fst p) (m_map m)"

text \<open>
  The calls of \<open>IntervalMapTest\<close>, in order, on a map constructed with default \<open>'A'\<close>.
\<close>

definition scenario :: "(int \<times> int \<times> char) list" where
  "scenario = [(5, 10, CHR ''B''), (7, 12, CHR ''C''), (12, 15, CHR ''D''),
               (5, 7, CHR ''B''), (10, 12, CHR ''A'')]"

text \<open>
  The redundancy-free form: no two consecutive entries carry equal values, and the first
  entry, if there is one, does not carry the default value.
\<close>

definition canonical :: "('k, 'v) interval_map \<Rightarrow> bool" where
  "canonical m \<longleftrightarrow>
     distinct_adj (map snd (m_map m)) \<and>
     (case m_map m of [] \<Rightarrow> True | p # _ \<Rightarrow> snd p \<noteq> m_valBegin m)"

text \<open>The map of \<open>IntervalMapTest\<close> after its first \<open>n\<close> calls of \<open>assign\<close>.\<close>

definition test_map :: "nat \<Rightarrow> (int, char) interval_map option" where
  "test_map n = assigns (interval_map_ctor (CHR ''A'')) (take n scenario)"

text \<open>
  An entry \<open>p\<close> of the table is the greatest stored boundary at or below \<open>key\<close>: its key is
  at most \<open>key\<close>, and no entry with a key at most \<open>key\<close> has a greater key.
\<close>

definition greatest_boundary_le :: "('k::linorder, 'v) table \<Rightarrow> 'k \<Rightarrow> 'k \<times> 'v \<Rightarrow> bool" where
  "greatest_boundary_le t key p \<longleftrightarrow>
     p \<in> set t \<and> fst p \<le> key \<and> (\<forall>q\<in>set t. fst q \<le> key \<longrightarrow> fst q \<le> fst p)"

text \<open>
  The map once \<open>assign\<close> has erased its span: the entries with keys in
  \<open>[keyBegin, keyEnd]\<close> are gone, the others stay.
\<close>

definition span_removed ::
  "('k::linorder, 'v) interval_map \<Rightarrow> 'k \<Rightarrow> 'k \<Rightarrow> ('k, 'v) interval_map" where
  "span_removed m keyBegin keyEnd =
     m\<lparr>m_map := filter (\<lambda>p. \<not> (keyBegin \<le> fst p \<and> fst p \<le> keyEnd)) (m_map m)\<rparr>"

section \<open>The ordered table: facts\<close>

lemma upper_bound_le_length: "upper_bound t key \<le> length t"
  by (induction t) auto

lemma take_upper_bound:
  "sorted_keys t \<Longrightarrow> take (upper_bound t key) t = filter (\<lambda>p. fst p \<le> key) t"
proof (induction t)
  case Nil
  show ?case by simp
next
  case (Cons p t)
  obtain k v where p: "p = (k, v)" by (cases p)
  from Cons.prems have st: "sorted_keys t" and gt: "\<forall>q\<in>set t. k < fst q"
    by (auto simp: sorted_keys_def p)
  show ?case
  proof (cases "key < k")
    case True
    with gt have "\<forall>q\<in>set t. \<not> fst q \<le> key" by auto
    then have "filter (\<lambda>p. fst p \<le> key) t = []" by (simp add: filter_empty_conv)
    with True show ?thesis by (simp add: p)
  next
    case False
    with Cons.IH [OF st] show ?thesis by (simp add: p)
  qed
qed

lemma drop_upper_bound:
  "sorted_keys t \<Longrightarrow> drop (upper_bound t key) t = filter (\<lambda>p. key < fst p) t"
proof (induction t)
  case Nil
  show ?case by simp
next
  case (Cons p t)
  obtain k v where p: "p = (k, v)" by (cases p)
  from Cons.prems have st: "sorted_keys t" and gt: "\<forall>q\<in>set t. k < fst q"
    by (auto simp: sorted_keys_def p)
  show ?case
  proof (cases "key < k")
    case True
    with gt have "\<forall>q\<in>set t. key < fst q" by auto
    then have "filter (\<lambda>p. key < fst p) t = t" by (simp add: filter_id_conv)
    with True show ?thesis by (simp add: p)
  next
    case False
    with Cons.IH [OF st] show ?thesis by (simp add: p)
  qed
qed

lemma lookup_take:
  "lookup m key = Some (last (m_valBegin m # map snd (take (upper_bound (m_map m) key) (m_map m))))"
proof (cases "upper_bound (m_map m) key = 0")
  case True
  then show ?thesis by (simp add: lookup_def)
next
  case False
  define n where "n = upper_bound (m_map m) key - 1"
  have n: "upper_bound (m_map m) key = Suc n" using False by (simp add: n_def)
  have len: "n < length (m_map m)"
    using upper_bound_le_length [of "m_map m" key] n by simp
  have "take (Suc n) (m_map m) = take n (m_map m) @ [m_map m ! n]"
    using len by (rule take_Suc_conv_app_nth)
  then show ?thesis
    using len by (simp add: lookup_def n iter_dec_def deref_def)
qed

lemma lookup_filter:
  "sorted_keys (m_map m) \<Longrightarrow>
   lookup m key = Some (last (m_valBegin m # map snd (filter (\<lambda>p. fst p \<le> key) (m_map m))))"
  by (simp add: lookup_take take_upper_bound)

lemma map_insert_between:
  "\<forall>p\<in>set pre. fst p < key \<Longrightarrow> \<forall>p\<in>set post. key < fst p \<Longrightarrow>
   map_insert (key, val) (pre @ post) = pre @ (key, val) # post"
proof (induction pre)
  case Nil
  then show ?case by (cases post) auto
next
  case (Cons p pre)
  then show ?case by (cases p) auto
qed

lemma filter_eq_take:
  assumes "n \<le> length t"
    and "\<forall>l<n. P (t ! l)"
    and "\<forall>l. n \<le> l \<longrightarrow> l < length t \<longrightarrow> \<not> P (t ! l)"
  shows "filter P t = take n t"
proof -
  have a: "filter P (take n t) = take n t"
    using assms(1,2) by (auto simp: filter_id_conv in_set_conv_nth)
  have "\<forall>x\<in>set (drop n t). \<not> P x"
    using assms(1,3) by (auto simp: in_set_conv_nth)
  then have b: "filter P (drop n t) = []" by (simp add: filter_empty_conv)
  have "filter P t = filter P (take n t @ drop n t)" by simp
  also have "\<dots> = take n t" unfolding filter_append a b by simp
  finally show ?thesis .
qed

lemma walk_back_spec:
  "it < length t \<Longrightarrow>
   \<exists>j. walk_back t keyBegin it = Some j \<and> j \<le> it \<and>
       (\<forall>l. j < l \<longrightarrow> l \<le> it \<longrightarrow> keyBegin < fst (t ! l)) \<and>
       (j \<noteq> 0 \<longrightarrow> \<not> keyBegin < fst (t ! j))"
proof (induction t keyBegin it rule: walk_back.induct)
  case (1 t keyBegin itStart)
  have d: "deref t itStart = Some (t ! itStart)" using "1.prems" by (simp add: deref_def)
  show ?case
  proof (cases "keyBegin < fst (t ! itStart) \<and> itStart \<noteq> 0")
    case True
    then have "itStart - 1 < length t" using "1.prems" by simp
    from "1.IH" [OF d _ this] True obtain j where
      j: "walk_back t keyBegin (itStart - 1) = Some j" "j \<le> itStart - 1"
         "\<forall>l. j < l \<longrightarrow> l \<le> itStart - 1 \<longrightarrow> keyBegin < fst (t ! l)"
         "j \<noteq> 0 \<longrightarrow> \<not> keyBegin < fst (t ! j)"
      by blast
    have eq: "walk_back t keyBegin itStart = Some j"
      using True d j(1) by (subst walk_back.simps) simp
    have "\<forall>l. j < l \<longrightarrow> l \<le> itStart \<longrightarrow> keyBegin < fst (t ! l)"
    proof (intro allI impI)
      fix l assume "j < l" "l \<le> itStart"
      then show "keyBegin < fst (t ! l)"
        using j(3) True by (cases "l = itStart") auto
    qed
    with eq j(2,4) show ?thesis by auto
  next
    case False
    then have "walk_back t keyBegin itStart = Some itStart"
      using d by (subst walk_back.simps) auto
    with False show ?thesis by auto
  qed
qed

lemma sorted_keys_nth:
  "sorted_keys t \<Longrightarrow> i < j \<Longrightarrow> j < length t \<Longrightarrow> fst (t ! i) < fst (t ! j)"
  by (simp add: sorted_keys_def sorted_wrt_iff_nth_less)

lemma upper_bound_nth_le:
  "sorted_keys t \<Longrightarrow> l < upper_bound t key \<Longrightarrow> fst (t ! l) \<le> key"
proof -
  assume s: "sorted_keys t" and l: "l < upper_bound t key"
  have "l < length t" using l upper_bound_le_length [of t key] by simp
  then have "t ! l \<in> set (take (upper_bound t key) t)"
    using l by (auto simp: in_set_conv_nth)
  then show ?thesis by (simp add: take_upper_bound [OF s])
qed

lemma upper_bound_nth_gt:
  "sorted_keys t \<Longrightarrow> upper_bound t key \<le> l \<Longrightarrow> l < length t \<Longrightarrow> key < fst (t ! l)"
proof -
  assume s: "sorted_keys t" and l: "upper_bound t key \<le> l" "l < length t"
  have "t ! l = drop (upper_bound t key) t ! (l - upper_bound t key)"
    using l by simp
  moreover have "l - upper_bound t key < length (drop (upper_bound t key) t)"
    using l by simp
  ultimately have "t ! l \<in> set (drop (upper_bound t key) t)"
    by (metis nth_mem)
  then show ?thesis by (simp add: drop_upper_bound [OF s])
qed

lemma last_take_snd:
  "n \<noteq> 0 \<Longrightarrow> n \<le> length t \<Longrightarrow> last (d # map snd (take n t)) = snd (t ! (n - 1))"
proof -
  assume n: "n \<noteq> 0" "n \<le> length t"
  then obtain n' where n': "n = Suc n'" by (cases n) auto
  then have "take n t = take n' t @ [t ! n']"
    using n by (simp add: take_Suc_conv_app_nth)
  then show ?thesis by (simp add: n')
qed

lemma itStart_position:
  assumes s: "sorted_keys t" and ne: "t \<noteq> []" and lt: "keyBegin < keyEnd"
    and j: "j \<le> upper_bound t keyEnd - 1"
      "\<forall>l. j < l \<longrightarrow> l \<le> upper_bound t keyEnd - 1 \<longrightarrow> keyBegin < fst (t ! l)"
      "j \<noteq> 0 \<longrightarrow> \<not> keyBegin < fst (t ! j)"
    and lo: "lo = (if fst (t ! j) < keyBegin \<and> j \<noteq> upper_bound t keyEnd then Suc j else j)"
  shows "lo \<le> upper_bound t keyEnd \<and> filter (\<lambda>p. fst p < keyBegin) t = take lo t"
proof -
  define hi where "hi = upper_bound t keyEnd"
  have hi_len: "hi \<le> length t" unfolding hi_def by (rule upper_bound_le_length)
  have len: "0 < length t" using ne by simp
  have above: "\<And>l. hi \<le> l \<Longrightarrow> l < length t \<Longrightarrow> keyBegin < fst (t ! l)"
    using upper_bound_nth_gt [OF s, of keyEnd] lt unfolding hi_def by fastforce
  have jlen: "j < length t" using j(1) hi_len len unfolding hi_def by linarith
  show ?thesis
  proof (cases "hi = 0")
    case True
    then have j0: "j = 0" using j(1) unfolding hi_def by simp
    have "keyBegin < fst (t ! 0)" using above [of 0] True len by simp
    then have "\<not> fst (t ! j) < keyBegin" using j0 by simp
    then have lo0: "lo = 0" using lo j0 by simp
    have "filter (\<lambda>p. fst p < keyBegin) t = take 0 t"
    proof (rule filter_eq_take)
      show "\<forall>l. 0 \<le> l \<longrightarrow> l < length t \<longrightarrow> \<not> fst (t ! l) < keyBegin"
        using above True by (metis le0 not_less_iff_gr_or_eq)
    qed simp_all
    then show ?thesis using lo0 by (simp add: hi_def)
  next
    case False
    then have jhi: "j < hi" using j(1) unfolding hi_def by simp
    show ?thesis
    proof (cases "fst (t ! j) < keyBegin")
      case True
      then have loj: "lo = Suc j" using lo jhi unfolding hi_def by simp
      have "filter (\<lambda>p. fst p < keyBegin) t = take (Suc j) t"
      proof (rule filter_eq_take)
        show "Suc j \<le> length t" using jlen by simp
        show "\<forall>l<Suc j. fst (t ! l) < keyBegin"
        proof (intro allI impI)
          fix l assume "l < Suc j"
          then have "l = j \<or> l < j" by auto
          then show "fst (t ! l) < keyBegin"
            using True sorted_keys_nth [OF s _ jlen, of l] by auto
        qed
        show "\<forall>l. Suc j \<le> l \<longrightarrow> l < length t \<longrightarrow> \<not> fst (t ! l) < keyBegin"
        proof (intro allI impI)
          fix l assume l: "Suc j \<le> l" "l < length t"
          have "keyBegin < fst (t ! l)"
          proof (cases "l < hi")
            case True
            then show ?thesis using j(2) l(1) unfolding hi_def by simp
          next
            case False
            then show ?thesis using above l(2) by simp
          qed
          then show "\<not> fst (t ! l) < keyBegin" by simp
        qed
      qed
      then show ?thesis using loj jhi by (simp add: hi_def)
    next
      case False
      then have loj: "lo = j" using lo by simp
      have "filter (\<lambda>p. fst p < keyBegin) t = take j t"
      proof (rule filter_eq_take)
        show "j \<le> length t" using jlen by simp
        show "\<forall>l<j. fst (t ! l) < keyBegin"
        proof (intro allI impI)
          fix l assume l: "l < j"
          then have "j \<noteq> 0" by simp
          with j(3) False have "fst (t ! j) = keyBegin" by simp
          then show "fst (t ! l) < keyBegin"
            using sorted_keys_nth [OF s l jlen] by simp
        qed
        show "\<forall>l. j \<le> l \<longrightarrow> l < length t \<longrightarrow> \<not> fst (t ! l) < keyBegin"
        proof (intro allI impI)
          fix l assume l: "j \<le> l" "l < length t"
          then have "l = j \<or> j < l" by auto
          then have "fst (t ! j) \<le> fst (t ! l)"
            using sorted_keys_nth [OF s _ l(2), of j] by auto
          then show "\<not> fst (t ! l) < keyBegin" using False by simp
        qed
      qed
      then show ?thesis using loj jhi by (simp add: hi_def)
    qed
  qed
qed

lemma assign_nonempty:
  assumes s: "sorted_keys (m_map m)" and ne: "m_map m \<noteq> []" and lt: "keyBegin < keyEnd"
  shows "assign m keyBegin keyEnd val = Some (m\<lparr>m_map := assigned_table m keyBegin keyEnd val\<rparr>)"
proof -
  define t where "t = m_map m"
  define hi where "hi = upper_bound t keyEnd"
  define pre where "pre = filter (\<lambda>p. fst p < keyBegin) t"
  define post where "post = filter (\<lambda>p. keyEnd < fst p) t"
  have st: "sorted_keys t" and tne: "t \<noteq> []" using s ne by (simp_all add: t_def)
  have hi_len: "hi \<le> length t" unfolding hi_def by (rule upper_bound_le_length)
  have ve: "value_at m keyEnd = last (m_valBegin m # map snd (take hi t))"
    by (simp add: value_at_def hi_def t_def take_upper_bound [OF s])
  have step1: "(if hi \<noteq> 0 then do {
             it \<leftarrow> iter_dec hi;
             p \<leftarrow> deref t it;
             Some (it, snd p)
           } else Some (hi, m_valBegin m)) = Some (hi - 1, value_at m keyEnd)"
  proof (cases "hi = 0")
    case True
    then show ?thesis by (simp add: ve)
  next
    case False
    then have "hi - 1 < length t" using hi_len by simp
    moreover have "value_at m keyEnd = snd (t ! (hi - 1))"
      by (simp only: ve last_take_snd [OF False hi_len])
    ultimately show ?thesis
      using False by (simp add: iter_dec_def deref_def)
  qed
  have start: "hi - 1 < length t" using hi_len tne by (cases t) auto
  from walk_back_spec [OF start, of keyBegin] obtain j where
    j: "walk_back t keyBegin (hi - 1) = Some j" "j \<le> hi - 1"
       "\<forall>l. j < l \<longrightarrow> l \<le> hi - 1 \<longrightarrow> keyBegin < fst (t ! l)"
       "j \<noteq> 0 \<longrightarrow> \<not> keyBegin < fst (t ! j)"
    by blast
  have jlen: "j < length t" using j(2) start by simp
  have step3: "deref t j = Some (t ! j)" using jlen by (simp add: deref_def)
  define lo where "lo = (if fst (t ! j) < keyBegin \<and> j \<noteq> hi then Suc j else j)"
  have step4: "(if fst (t ! j) < keyBegin \<and> j \<noteq> hi then iter_inc t j else Some j) = Some lo"
    using jlen by (simp add: lo_def iter_inc_def)
  from itStart_position [OF st tne lt j(2,3,4) [unfolded hi_def] lo_def [unfolded hi_def]]
  have lo_hi: "lo \<le> hi" and pre_take: "pre = take lo t"
    by (simp_all add: hi_def pre_def)
  have lo_len: "lo \<le> length t" using lo_hi hi_len by simp
  have vb: "value_below m keyBegin = last (m_valBegin m # map snd (take lo t))"
    using pre_take by (simp add: value_below_def pre_def t_def)
  have step5: "(if lo \<noteq> 0 then do {
             it \<leftarrow> iter_dec lo;
             q \<leftarrow> deref t it;
             Some (\<not> (snd q = val))
           } else Some True) = Some (lo = 0 \<or> value_below m keyBegin \<noteq> val)"
  proof (cases "lo = 0")
    case True
    then show ?thesis by simp
  next
    case False
    then have "lo - 1 < length t" using lo_len by simp
    moreover have "value_below m keyBegin = snd (t ! (lo - 1))"
      by (simp only: vb last_take_snd [OF False lo_len])
    ultimately show ?thesis
      using False by (simp add: iter_dec_def deref_def)
  qed
  have cond: "((lo = 0 \<or> value_below m keyBegin \<noteq> val) \<and> \<not> (lo = 0 \<and> val = m_valBegin m))
      = (value_below m keyBegin \<noteq> val)"
    by (cases "lo = 0") (auto simp: vb)
  have post_drop: "post = drop hi t"
    by (simp add: post_def hi_def drop_upper_bound [OF st])
  have step6: "map_erase t lo hi = Some (pre @ post, lo)"
    using lo_hi hi_len by (simp add: map_erase_def pre_take post_drop)
  have pre_lt: "\<forall>p\<in>set pre. fst p < keyBegin" by (simp add: pre_def)
  have post_gt: "\<forall>p\<in>set post. keyEnd < fst p" by (simp add: post_def)
  have post_gt': "\<forall>p\<in>set post. keyBegin < fst p" using post_gt lt by auto
  have pre_lt': "\<forall>p\<in>set pre. fst p < keyEnd" using pre_lt lt by auto
  have ins_b: "map_insert (keyBegin, val) (pre @ post) = pre @ (keyBegin, val) # post"
    by (rule map_insert_between [OF pre_lt post_gt'])
  have ins_e1: "map_insert (keyEnd, w) (pre @ post) = pre @ (keyEnd, w) # post" for w
    by (rule map_insert_between [OF pre_lt' post_gt])
  have ins_e2: "map_insert (keyEnd, w) (pre @ (keyBegin, val) # post)
      = pre @ (keyBegin, val) # (keyEnd, w) # post" for w
    using map_insert_between [of "pre @ [(keyBegin, val)]" keyEnd post w] pre_lt' post_gt lt
    by simp
  have "assign m keyBegin keyEnd val = Some (m\<lparr>m_map :=
      pre @ (if value_below m keyBegin = val then [] else [(keyBegin, val)]) @
     (if value_at m keyEnd = val then [] else [(keyEnd, value_at m keyEnd)]) @ post\<rparr>)"
    unfolding assign_def Let_def t_def [symmetric] hi_def [symmetric]
    apply (simp only: lt tne not_True_eq_False if_False step1 j(1) step3 step4 step5 cond
        step6 Option.bind.simps prod.case)
    apply (simp add: ins_b ins_e1 ins_e2)
    done
  then show ?thesis by (simp add: assigned_table_def pre_def post_def t_def)
qed

section \<open>What \<open>assign\<close> computes\<close>

lemma assign_not_less:
  "\<not> keyBegin < keyEnd \<Longrightarrow> assign m keyBegin keyEnd val = Some m"
  by (simp add: assign_def)

lemma assign_empty_table:
  "m_map m = [] \<Longrightarrow> keyBegin < keyEnd \<Longrightarrow>
   assign m keyBegin keyEnd val = Some (m\<lparr>m_map := [(keyBegin, val), (keyEnd, m_valBegin m)]\<rparr>)"
  by (simp add: assign_def)

lemma sorted_keys_filter: "sorted_keys t \<Longrightarrow> sorted_keys (filter P t)"
  by (induction t) (auto simp: sorted_keys_def)

lemma sorted_keys_assigned_table:
  assumes s: "sorted_keys (m_map m)" and lt: "keyBegin < keyEnd"
  shows "sorted_keys (assigned_table m keyBegin keyEnd val)"
  using sorted_keys_filter [OF s, of "\<lambda>p. fst p < keyBegin"]
    sorted_keys_filter [OF s, of "\<lambda>p. keyEnd < fst p"] lt
  unfolding assigned_table_def sorted_keys_def
  by (auto simp: sorted_wrt_append)

lemma assign_cases:
  assumes "sorted_keys (m_map m)"
  shows "assign m keyBegin keyEnd val = Some
     (if \<not> keyBegin < keyEnd then m
      else if m_map m = [] then m\<lparr>m_map := [(keyBegin, val), (keyEnd, m_valBegin m)]\<rparr>
      else m\<lparr>m_map := assigned_table m keyBegin keyEnd val\<rparr>)"
  using assms by (simp add: assign_not_less assign_empty_table assign_nonempty)

lemma assign_sorted_keys:
  assumes s: "sorted_keys (m_map m)" and a: "assign m keyBegin keyEnd val = Some m'"
  shows "sorted_keys (m_map m')"
proof -
  have "m' = (if \<not> keyBegin < keyEnd then m
      else if m_map m = [] then m\<lparr>m_map := [(keyBegin, val), (keyEnd, m_valBegin m)]\<rparr>
      else m\<lparr>m_map := assigned_table m keyBegin keyEnd val\<rparr>)"
    using a assign_cases [OF s, of keyBegin keyEnd val] by simp
  then show ?thesis
    using s sorted_keys_assigned_table [OF s, of keyBegin keyEnd val]
    by (auto simp: sorted_keys_def split: if_splits)
qed

lemma assigns_sorted_keys:
  "sorted_keys (m_map m) \<Longrightarrow> \<exists>m'. assigns m cs = Some m' \<and> sorted_keys (m_map m')"
proof (induction cs arbitrary: m)
  case Nil
  then show ?case by simp
next
  case (Cons c cs)
  obtain b e v where c: "c = (b, e, v)" by (cases c)
  from assign_cases [OF Cons.prems, of b e v] obtain m1 where
    m1: "assign m b e v = Some m1" by blast
  from assign_sorted_keys [OF Cons.prems m1] have "sorted_keys (m_map m1)" .
  from Cons.IH [OF this] show ?case by (simp add: c m1)
qed

lemma ctor_sorted: "sorted_keys (m_map (interval_map_ctor d))"
  by (simp add: interval_map_ctor_def sorted_keys_def)

lemma filter_le_gt_append:
  "sorted_keys t \<Longrightarrow> filter (\<lambda>p. fst p \<le> key) t @ filter (\<lambda>p. key < fst p) t = t"
  using take_upper_bound [of t key] drop_upper_bound [of t key]
  by (metis append_take_drop_id)

lemma filter_le_split:
  assumes s: "sorted_keys t" and le: "keyEnd \<le> key"
  shows "filter (\<lambda>p. fst p \<le> key) t =
         filter (\<lambda>p. fst p \<le> keyEnd) t @ filter (\<lambda>p. keyEnd < fst p \<and> fst p \<le> key) t"
proof -
  have "filter (\<lambda>p. fst p \<le> key) t =
        filter (\<lambda>p. fst p \<le> key) (filter (\<lambda>p. fst p \<le> keyEnd) t @ filter (\<lambda>p. keyEnd < fst p) t)"
    by (simp only: filter_le_gt_append [OF s])
  also have "\<dots> = filter (\<lambda>p. fst p \<le> keyEnd \<and> fst p \<le> key) t @
                    filter (\<lambda>p. keyEnd < fst p \<and> fst p \<le> key) t"
    by simp
  also have "filter (\<lambda>p. fst p \<le> keyEnd \<and> fst p \<le> key) t = filter (\<lambda>p. fst p \<le> keyEnd) t"
    using le by (intro filter_cong) auto
  finally show ?thesis .
qed

lemma value_at_assigned_table:
  assumes s: "sorted_keys (m_map m)" and lt: "keyBegin < keyEnd"
  shows "value_at (m\<lparr>m_map := assigned_table m keyBegin keyEnd val\<rparr>) key =
         (if keyBegin \<le> key \<and> key < keyEnd then val else value_at m key)"
proof -
  define t where "t = m_map m"
  define d where "d = m_valBegin m"
  define pre where "pre = filter (\<lambda>p. fst p < keyBegin) t"
  define B where "B = (if value_below m keyBegin = val then [] else [(keyBegin, val)])"
  define E where "E = (if value_at m keyEnd = val then [] else [(keyEnd, value_at m keyEnd)])"
  define post where "post = filter (\<lambda>p. keyEnd < fst p \<and> fst p \<le> key) t"
  have st: "sorted_keys t" using s by (simp add: t_def)
  have vb: "value_below m keyBegin = last (d # map snd pre)"
    by (simp add: value_below_def d_def pre_def t_def)
  have new: "value_at (m\<lparr>m_map := assigned_table m keyBegin keyEnd val\<rparr>) key =
      last (d # map snd (filter (\<lambda>p. fst p \<le> key) pre @ filter (\<lambda>p. fst p \<le> key) B @
                         filter (\<lambda>p. fst p \<le> key) E @ post))"
    by (simp add: value_at_def assigned_table_def d_def pre_def B_def E_def post_def t_def)
  have old: "value_at m key = last (d # map snd (filter (\<lambda>p. fst p \<le> key) t))"
    by (simp add: value_at_def d_def t_def)
  consider (below) "key < keyBegin" | (inside) "keyBegin \<le> key" "key < keyEnd"
    | (above) "keyEnd \<le> key"
    by fastforce
  then show ?thesis
  proof cases
    case below
    have "filter (\<lambda>p. fst p \<le> key) pre = filter (\<lambda>p. fst p \<le> key) t"
      unfolding pre_def filter_filter using below by (intro filter_cong) auto
    moreover have "filter (\<lambda>p. fst p \<le> key) B = []" using below by (auto simp: B_def)
    moreover have "filter (\<lambda>p. fst p \<le> key) E = []" using below lt by (auto simp: E_def)
    moreover have "post = []" using below lt by (auto simp: post_def filter_empty_conv)
    moreover have "\<not> (keyBegin \<le> key \<and> key < keyEnd)" using below by auto
    ultimately show ?thesis by (auto simp: new old)
  next
    case inside
    have "\<forall>p\<in>set pre. fst p \<le> key" using inside by (auto simp: pre_def)
    then have "filter (\<lambda>p. fst p \<le> key) pre = pre" by (rule filter_True)
    moreover have "filter (\<lambda>p. fst p \<le> key) B = B" using inside by (auto simp: B_def)
    moreover have "filter (\<lambda>p. fst p \<le> key) E = []" using inside by (auto simp: E_def)
    moreover have "post = []" using inside by (auto simp: post_def filter_empty_conv)
    moreover have "last (d # map snd (pre @ B)) = val"
      using vb by (simp add: B_def)
    ultimately show ?thesis using inside by (simp add: new)
  next
    case above
    have "\<forall>p\<in>set pre. fst p \<le> key" using above lt by (auto simp: pre_def)
    then have p: "filter (\<lambda>p. fst p \<le> key) pre = pre" by (rule filter_True)
    have b: "filter (\<lambda>p. fst p \<le> key) B = B" using above lt by (auto simp: B_def)
    have e: "filter (\<lambda>p. fst p \<le> key) E = E" using above by (auto simp: E_def)
    have ve: "value_at m keyEnd = last (d # map snd (filter (\<lambda>p. fst p \<le> keyEnd) t))"
      by (simp add: value_at_def d_def t_def)
    have old': "value_at m key =
        last (d # map snd (filter (\<lambda>p. fst p \<le> keyEnd) t @ post))"
      unfolding old post_def by (simp only: filter_le_split [OF st above])
    have "last (d # map snd (pre @ B @ E @ post)) = value_at m key"
    proof (cases "post = []")
      case True
      have "last (d # map snd (pre @ B @ E)) = value_at m keyEnd"
        using vb by (simp add: B_def E_def)
      then show ?thesis using True old' ve by simp
    next
      case False
      then show ?thesis unfolding old' by simp
    qed
    moreover have "\<not> (keyBegin \<le> key \<and> key < keyEnd)" using above by auto
    ultimately show ?thesis by (auto simp: new p b e)
  qed
qed

section \<open>The claims\<close>

text \<open>
  C1. For every call \<open>assign(keyBegin, keyEnd, val)\<close> with \<open>keyBegin < keyEnd\<close>, on any table
  a \<open>std::map\<close> can hold, the call returns, and afterwards the look-up of every key in
  \<open>[keyBegin, keyEnd)\<close> gives \<open>val\<close> and the look-up of every other key gives what it gave
  before the call.
\<close>

theorem assign_lookup:
  assumes s: "sorted_keys (m_map m)" and lt: "keyBegin < keyEnd"
  shows "\<exists>m'. assign m keyBegin keyEnd val = Some m' \<and>
    (\<forall>key. lookup m' key =
       (if keyBegin \<le> key \<and> key < keyEnd then Some val else lookup m key))"
proof (cases "m_map m = []")
  case True
  define m' where "m' = m\<lparr>m_map := [(keyBegin, val), (keyEnd, m_valBegin m)]\<rparr>"
  have a: "assign m keyBegin keyEnd val = Some m'"
    unfolding m'_def using True lt by (rule assign_empty_table)
  have "lookup m' key = (if keyBegin \<le> key \<and> key < keyEnd then Some val else lookup m key)"
    for key
    using True lt by (auto simp: m'_def lookup_def iter_dec_def deref_def)
  with a show ?thesis by blast
next
  case False
  define m' where "m' = m\<lparr>m_map := assigned_table m keyBegin keyEnd val\<rparr>"
  have a: "assign m keyBegin keyEnd val = Some m'"
    unfolding m'_def using s False lt by (rule assign_nonempty)
  have s': "sorted_keys (m_map m')"
    using sorted_keys_assigned_table [OF s lt, of val] by (simp add: m'_def)
  have "lookup m' key = (if keyBegin \<le> key \<and> key < keyEnd then Some val else lookup m key)"
    for key
    using lookup_filter [OF s', of key] lookup_filter [OF s, of key]
      value_at_assigned_table [OF s lt, of val key]
    by (simp add: m'_def value_at_def)
  with a show ?thesis by blast
qed

theorem assign_lookup_witness:
  "sorted_keys (m_map \<lparr>m_valBegin = CHR ''A'', m_map = [(5::int, CHR ''B''), (10, CHR ''A'')]\<rparr>) \<and>
   (7::int) < 12 \<and>
   (\<exists>m'. assign \<lparr>m_valBegin = CHR ''A'', m_map = [(5::int, CHR ''B''), (10, CHR ''A'')]\<rparr>
            7 12 (CHR ''C'') = Some m' \<and>
         lookup m' 6 = Some (CHR ''B'') \<and> lookup m' 7 = Some (CHR ''C'') \<and>
         lookup m' 11 = Some (CHR ''C'') \<and> lookup m' 12 = Some (CHR ''A''))"
proof -
  let ?m = "\<lparr>m_valBegin = CHR ''A'', m_map = [(5::int, CHR ''B''), (10, CHR ''A'')]\<rparr>"
  have s: "sorted_keys (m_map ?m)" by (simp add: sorted_keys_def)
  have lt: "(7::int) < 12" by simp
  from assign_lookup [OF s lt, of "CHR ''C''"] obtain m' where
    a: "assign ?m 7 12 (CHR ''C'') = Some m'" and
    l: "\<And>key. lookup m' key =
          (if 7 \<le> key \<and> key < 12 then Some (CHR ''C'') else lookup ?m key)"
    by blast
  have "lookup m' 6 = Some (CHR ''B'')" "lookup m' 7 = Some (CHR ''C'')"
    "lookup m' 11 = Some (CHR ''C'')" "lookup m' 12 = Some (CHR ''A'')"
    unfolding l by (simp_all add: lookup_def iter_dec_def deref_def)
  with s lt a show ?thesis by blast
qed

text \<open>
  C4. A call \<open>assign(keyBegin, keyEnd, val)\<close> with \<open>!(keyBegin < keyEnd)\<close> returns the map
  it was given: the table and the default value are the same, hence every look-up is, and
  the call does not fail.
\<close>

theorem assign_empty_range:
  "\<not> keyBegin < keyEnd \<Longrightarrow> assign m keyBegin keyEnd val = Some m"
  by (simp add: assign_def)

theorem assign_empty_range_witness:
  "\<not> (10::int) < 5 \<and> \<not> (7::int) < 7 \<and>
   assign \<lparr>m_valBegin = CHR ''A'', m_map = [(5::int, CHR ''B''), (10, CHR ''A'')]\<rparr> 10 5 (CHR ''C'')
     = Some \<lparr>m_valBegin = CHR ''A'', m_map = [(5::int, CHR ''B''), (10, CHR ''A'')]\<rparr> \<and>
   assign \<lparr>m_valBegin = CHR ''A'', m_map = [(5::int, CHR ''B''), (10, CHR ''A'')]\<rparr> 7 7 (CHR ''C'')
     = Some \<lparr>m_valBegin = CHR ''A'', m_map = [(5::int, CHR ''B''), (10, CHR ''A'')]\<rparr>"
proof -
  let ?m = "\<lparr>m_valBegin = CHR ''A'', m_map = [(5::int, CHR ''B''), (10, CHR ''A'')]\<rparr>"
  have a: "\<not> (10::int) < 5" and b: "\<not> (7::int) < 7" by simp_all
  from a b assign_empty_range [OF a, of ?m "CHR ''C''"] assign_empty_range [OF b, of ?m "CHR ''C''"]
  show ?thesis by blast
qed

lemmas eval_defs = interval_map_ctor_def assign_def lookup_def iter_dec_def deref_def
  iter_inc_def map_erase_def walk_back.simps

lemma take_scenario:
  "take 1 scenario = [(5, 10, CHR ''B'')]"
  "take 2 scenario = [(5, 10, CHR ''B''), (7, 12, CHR ''C'')]"
  "take 3 scenario = [(5, 10, CHR ''B''), (7, 12, CHR ''C''), (12, 15, CHR ''D'')]"
  "take 4 scenario = [(5, 10, CHR ''B''), (7, 12, CHR ''C''), (12, 15, CHR ''D''),
     (5, 7, CHR ''B'')]"
  "take 5 scenario = scenario"
  by (simp_all add: scenario_def)

lemma test_map_1:
  "test_map 1 = Some \<lparr>m_valBegin = CHR ''A'', m_map = [(5, CHR ''B''), (10, CHR ''A'')]\<rparr>"
  unfolding test_map_def take_scenario by (simp add: eval_defs)

lemma test_map_2:
  "test_map 2 = Some \<lparr>m_valBegin = CHR ''A'',
     m_map = [(5, CHR ''B''), (7, CHR ''C''), (12, CHR ''A'')]\<rparr>"
  unfolding test_map_def take_scenario by (simp add: eval_defs)

lemma test_map_3:
  "test_map 3 = Some \<lparr>m_valBegin = CHR ''A'',
     m_map = [(5, CHR ''B''), (7, CHR ''C''), (12, CHR ''D''), (15, CHR ''A'')]\<rparr>"
  unfolding test_map_def take_scenario by (simp add: eval_defs)

lemma test_map_4:
  "test_map 4 = Some \<lparr>m_valBegin = CHR ''A'',
     m_map = [(5, CHR ''B''), (7, CHR ''C''), (12, CHR ''D''), (15, CHR ''A'')]\<rparr>"
  unfolding test_map_def take_scenario by (simp add: eval_defs)

lemma test_map_5:
  "test_map 5 = Some \<lparr>m_valBegin = CHR ''A'',
     m_map = [(5, CHR ''B''), (7, CHR ''C''), (10, CHR ''A''), (12, CHR ''D''), (15, CHR ''A'')]\<rparr>"
  unfolding test_map_def take_scenario by (simp add: scenario_def eval_defs)

text \<open>
  C8. The run of \<open>IntervalMapTest\<close> on a map with default \<open>'A'\<close>: the look-ups after each of
  the first four calls, and the table after the fifth.
\<close>

theorem scenario_run:
  "(\<exists>m1. test_map 1 = Some m1 \<and>
      lookup m1 4 = Some (CHR ''A'') \<and> lookup m1 5 = Some (CHR ''B'') \<and>
      lookup m1 9 = Some (CHR ''B'') \<and> lookup m1 10 = Some (CHR ''A'')) \<and>
   (\<exists>m2. test_map 2 = Some m2 \<and>
      lookup m2 6 = Some (CHR ''B'') \<and> lookup m2 7 = Some (CHR ''C'') \<and>
      lookup m2 11 = Some (CHR ''C'') \<and> lookup m2 12 = Some (CHR ''A'')) \<and>
   (\<exists>m3. test_map 3 = Some m3 \<and>
      lookup m3 12 = Some (CHR ''D'') \<and> lookup m3 14 = Some (CHR ''D'') \<and>
      lookup m3 15 = Some (CHR ''A'')) \<and>
   (\<exists>m4. test_map 4 = Some m4 \<and>
      lookup m4 5 = Some (CHR ''B'') \<and> lookup m4 6 = Some (CHR ''B'') \<and>
      lookup m4 7 = Some (CHR ''C'')) \<and>
   test_map 4 = test_map 3 \<and>
   test_map 5 = Some \<lparr>m_valBegin = CHR ''A'',
     m_map = [(5, CHR ''B''), (7, CHR ''C''), (10, CHR ''A''), (12, CHR ''D''), (15, CHR ''A'')]\<rparr>"
  unfolding test_map_1 test_map_2 test_map_3 test_map_4 test_map_5
  by (simp add: lookup_def iter_dec_def deref_def)

lemma bind_all:
  "(\<And>a. \<forall>y. f a = Some y \<longrightarrow> P y) \<Longrightarrow> \<forall>y. Option.bind x f = Some y \<longrightarrow> P y"
  by (cases x) auto

text \<open>
  C9. \<open>assign\<close> never alters the default value: the map it returns has the default value
  of the map it was given. A look-up leaves the default value and the table as they were:
  \<open>operator[]\<close> is a \<open>const\<close> member, the map after the call is the map before it.
\<close>

theorem assign_keeps_default:
  "(assign m keyBegin keyEnd val = Some m' \<longrightarrow> m_valBegin m' = m_valBegin m) \<and>
   (lookup_call m key = Some (v, m'') \<longrightarrow>
      m_valBegin m'' = m_valBegin m \<and> m_map m'' = m_map m)"
proof -
  have "\<forall>m'. assign m keyBegin keyEnd val = Some m' \<longrightarrow> m_valBegin m' = m_valBegin m"
  proof (cases "\<not> keyBegin < keyEnd \<or> m_map m = []")
    case True
    then show ?thesis by (auto simp: assign_def)
  next
    case False
    then have c: "keyBegin < keyEnd" "m_map m \<noteq> []" by auto
    show ?thesis
      unfolding assign_def Let_def split_def
      apply (simp only: c not_True_eq_False if_False)
      apply (rule bind_all)+
      apply simp
      done
  qed
  moreover have "lookup_call m key = Some (v, m'') \<longrightarrow> m'' = m"
    by (auto simp: lookup_call_def bind_eq_Some_conv)
  ultimately show ?thesis by blast
qed

theorem assign_keeps_default_witness:
  "assign \<lparr>m_valBegin = CHR ''A'', m_map = [(5::int, CHR ''B''), (10, CHR ''A'')]\<rparr> 7 12 (CHR ''C'')
     = Some \<lparr>m_valBegin = CHR ''A'', m_map = [(5, CHR ''B''), (7, CHR ''C''), (12, CHR ''A'')]\<rparr> \<and>
   m_valBegin \<lparr>m_valBegin = CHR ''A'', m_map = [(5::int, CHR ''B''), (7, CHR ''C''), (12, CHR ''A'')]\<rparr>
     = m_valBegin \<lparr>m_valBegin = CHR ''A'', m_map = [(5::int, CHR ''B''), (10, CHR ''A'')]\<rparr> \<and>
   lookup_call \<lparr>m_valBegin = CHR ''A'', m_map = [(5::int, CHR ''B''), (10, CHR ''A'')]\<rparr> 7
     = Some (CHR ''B'', \<lparr>m_valBegin = CHR ''A'', m_map = [(5, CHR ''B''), (10, CHR ''A'')]\<rparr>)"
proof -
  let ?m = "\<lparr>m_valBegin = CHR ''A'', m_map = [(5::int, CHR ''B''), (10, CHR ''A'')]\<rparr>"
  let ?m' = "\<lparr>m_valBegin = CHR ''A'',
    m_map = [(5::int, CHR ''B''), (7, CHR ''C''), (12, CHR ''A'')]\<rparr>"
  have a: "assign ?m 7 12 (CHR ''C'') = Some ?m'"
    by (simp add: eval_defs)
  have l: "lookup_call ?m 7 = Some (CHR ''B'', ?m)"
    by (simp add: lookup_call_def eval_defs)
  from assign_keeps_default [of ?m 7 12 "CHR ''C''" ?m' 7 "CHR ''B''" ?m] a l
  show ?thesis by blast
qed

text \<open>
  C10. On an empty table a call \<open>assign(keyBegin, keyEnd, val)\<close> with \<open>keyBegin < keyEnd\<close>
  leaves exactly the two entries \<open>(keyBegin, val)\<close> and \<open>(keyEnd, m_valBegin)\<close>, whatever
  \<open>val\<close> is; the witness takes \<open>val\<close> equal to the default value.
\<close>

theorem assign_on_empty:
  "m_map m = [] \<Longrightarrow> keyBegin < keyEnd \<Longrightarrow>
   assign m keyBegin keyEnd val = Some (m\<lparr>m_map := [(keyBegin, val), (keyEnd, m_valBegin m)]\<rparr>)"
  by (simp add: assign_def)

theorem assign_on_empty_witness:
  "m_map (interval_map_ctor (CHR ''A'') :: (int, char) interval_map) = [] \<and> (1::int) < 2 \<and>
   assign (interval_map_ctor (CHR ''A'')) (1::int) 2 (CHR ''A'')
     = Some \<lparr>m_valBegin = CHR ''A'', m_map = [(1, CHR ''A''), (2, CHR ''A'')]\<rparr>"
proof -
  let ?m = "interval_map_ctor (CHR ''A'') :: (int, char) interval_map"
  have e: "m_map ?m = []" by (simp add: interval_map_ctor_def)
  have l: "(1::int) < 2" by simp
  have "?m\<lparr>m_map := [(1, CHR ''A''), (2, m_valBegin ?m)]\<rparr> =
        \<lparr>m_valBegin = CHR ''A'', m_map = [(1, CHR ''A''), (2, CHR ''A'')]\<rparr>"
    by (simp add: interval_map_ctor_def)
  with e l assign_on_empty [OF e l, of "CHR ''A''"] show ?thesis by simp
qed

lemma sorted_keys_last_greatest:
  assumes "sorted_keys t" and "q \<in> set t"
  shows "fst q \<le> fst (last t)"
proof -
  from assms(2) have ne: "t \<noteq> []" by auto
  then have t: "t = butlast t @ [last t]" by simp
  from assms(1) have "sorted_wrt (<) (map fst (butlast t @ [last t]))"
    unfolding sorted_keys_def using t by simp
  then have "\<forall>x\<in>set (butlast t). fst x < fst (last t)"
    by (simp add: sorted_wrt_append)
  moreover from assms(2) t have "q \<in> set (butlast t) \<or> q = last t"
    by (metis Un_iff insert_iff list.set(2) set_append empty_iff list.set(1))
  ultimately show ?thesis by auto
qed

lemma lookup_greatest:
  assumes s: "sorted_keys (m_map m)"
  shows "\<exists>v. lookup m key = Some v \<and>
    (if \<exists>p\<in>set (m_map m). fst p \<le> key
     then \<exists>p. greatest_boundary_le (m_map m) key p \<and> v = snd p
     else v = m_valBegin m)"
proof -
  define f where "f = filter (\<lambda>p. fst p \<le> key) (m_map m)"
  have l: "lookup m key = Some (last (m_valBegin m # map snd f))"
    unfolding f_def by (rule lookup_filter [OF s])
  show ?thesis
  proof (cases "f = []")
    case True
    then have "\<not> (\<exists>p\<in>set (m_map m). fst p \<le> key)"
      by (auto simp: f_def filter_empty_conv)
    with l True show ?thesis by simp
  next
    case False
    then have ex: "\<exists>p\<in>set (m_map m). fst p \<le> key"
      by (auto simp: f_def filter_empty_conv)
    have sf: "sorted_keys f" unfolding f_def by (rule sorted_keys_filter [OF s])
    have "last f \<in> set f" using False by simp
    then have in_t: "last f \<in> set (m_map m)" and le: "fst (last f) \<le> key"
      by (simp_all add: f_def)
    have "\<forall>q\<in>set (m_map m). fst q \<le> key \<longrightarrow> fst q \<le> fst (last f)"
    proof (intro ballI impI)
      fix q assume "q \<in> set (m_map m)" "fst q \<le> key"
      then have "q \<in> set f" by (simp add: f_def)
      then show "fst q \<le> fst (last f)" by (rule sorted_keys_last_greatest [OF sf])
    qed
    with in_t le have g: "greatest_boundary_le (m_map m) key (last f)"
      by (simp add: greatest_boundary_le_def)
    have "last (m_valBegin m # map snd f) = snd (last f)"
      using False by (simp add: last_map)
    with l have "lookup m key = Some (snd (last f))" by simp
    moreover from g have "\<exists>p. greatest_boundary_le (m_map m) key p \<and> snd (last f) = snd p"
      by blast
    ultimately show ?thesis using ex by simp
  qed
qed

text \<open>
  C5. Whatever calls of \<open>assign\<close> were made on a freshly constructed map, they all return,
  and the look-up of any key then returns a value: the value of the entry with the greatest
  key at or below the key when the table has such an entry, the default value otherwise.
\<close>

theorem lookup_total:
  "\<exists>m. assigns (interval_map_ctor d) cs = Some m \<and>
     (\<exists>v. lookup m key = Some v \<and>
        (if \<exists>p\<in>set (m_map m). fst p \<le> key
         then \<exists>p. greatest_boundary_le (m_map m) key p \<and> v = snd p
         else v = m_valBegin m))"
proof -
  from assigns_sorted_keys [OF ctor_sorted, of d cs] obtain m where
    m: "assigns (interval_map_ctor d) cs = Some m" and s: "sorted_keys (m_map m)"
    by blast
  from lookup_greatest [OF s, of key] m show ?thesis by blast
qed

theorem lookup_total_witness:
  "\<exists>m. assigns (interval_map_ctor (CHR ''A'')) [(5::int, 10, CHR ''B'')] = Some m \<and>
     (\<exists>p\<in>set (m_map m). fst p \<le> 7) \<and>
     greatest_boundary_le (m_map m) 7 (5, CHR ''B'') \<and>
     lookup m 7 = Some (CHR ''B'') \<and>
     \<not> (\<exists>p\<in>set (m_map m). fst p \<le> 4) \<and>
     lookup m 4 = Some (CHR ''A'')"
proof -
  let ?m = "\<lparr>m_valBegin = CHR ''A'', m_map = [(5::int, CHR ''B''), (10, CHR ''A'')]\<rparr>"
  have run: "assigns (interval_map_ctor (CHR ''A'')) [(5::int, 10, CHR ''B'')] = Some ?m"
    by (simp add: eval_defs)
  have c7: "\<exists>p\<in>set (m_map ?m). fst p \<le> 7" and c4: "\<not> (\<exists>p\<in>set (m_map ?m). fst p \<le> 4)"
    by simp_all
  from lookup_total [of "CHR ''A''" "[(5::int, 10, CHR ''B'')]" 7] run c7
  obtain v p where v: "lookup ?m 7 = Some v" "greatest_boundary_le (m_map ?m) 7 p" "v = snd p"
    by auto
  from v(2) have "p = (5, CHR ''B'')"
    by (auto simp: greatest_boundary_le_def)
  with v have a: "greatest_boundary_le (m_map ?m) 7 (5, CHR ''B'')" "lookup ?m 7 = Some (CHR ''B'')"
    by simp_all
  from lookup_total [of "CHR ''A''" "[(5::int, 10, CHR ''B'')]" 4] run c4
  have b: "lookup ?m 4 = Some (CHR ''A'')"
    by auto
  from run c7 c4 a b show ?thesis by blast
qed

lemma set_assigned_table:
  "set (assigned_table m keyBegin keyEnd val) =
     {p \<in> set (m_map m). fst p < keyBegin} \<union>
     (if value_below m keyBegin = val then {} else {(keyBegin, val)}) \<union>
     (if value_at m keyEnd = val then {} else {(keyEnd, value_at m keyEnd)}) \<union>
     {p \<in> set (m_map m). keyEnd < fst p}"
  by (auto simp: assigned_table_def)

lemma value_below_span_removed:
  "keyBegin \<le> keyEnd \<Longrightarrow>
   value_below (span_removed m keyBegin keyEnd) keyBegin = value_below m keyBegin"
proof -
  assume "keyBegin \<le> keyEnd"
  have "filter (\<lambda>p. fst p < keyBegin)
          (filter (\<lambda>p. \<not> (keyBegin \<le> fst p \<and> fst p \<le> keyEnd)) (m_map m))
        = filter (\<lambda>p. fst p < keyBegin) (m_map m)"
    unfolding filter_filter by (intro filter_cong) auto
  then show ?thesis by (simp add: value_below_def span_removed_def)
qed

text \<open>
  C6. A call \<open>assign(keyBegin, keyEnd, val)\<close> with \<open>keyBegin < keyEnd\<close> on a table that is not
  empty returns, and the table then has an entry at \<open>keyEnd\<close> if and only if
  \<open>valueAfterEnd\<close>, the look-up of \<open>keyEnd\<close> before the call, differs from \<open>val\<close>; an entry
  at \<open>keyEnd\<close> carries \<open>valueAfterEnd\<close>.
\<close>

theorem assign_end_boundary:
  assumes s: "sorted_keys (m_map m)" and ne: "m_map m \<noteq> []" and lt: "keyBegin < keyEnd"
  shows "\<exists>m' valueAfterEnd.
     lookup m keyEnd = Some valueAfterEnd \<and>
     assign m keyBegin keyEnd val = Some m' \<and>
     (keyEnd \<in> fst ` set (m_map m') \<longleftrightarrow> valueAfterEnd \<noteq> val) \<and>
     (\<forall>v. (keyEnd, v) \<in> set (m_map m') \<longrightarrow> v = valueAfterEnd)"
proof -
  define m' where "m' = m\<lparr>m_map := assigned_table m keyBegin keyEnd val\<rparr>"
  have a: "assign m keyBegin keyEnd val = Some m'"
    unfolding m'_def using s ne lt by (rule assign_nonempty)
  have l: "lookup m keyEnd = Some (value_at m keyEnd)"
    using lookup_filter [OF s, of keyEnd] by (simp add: value_at_def)
  have set: "set (m_map m') = set (assigned_table m keyBegin keyEnd val)"
    by (simp add: m'_def)
  have 1: "keyEnd \<in> fst ` set (m_map m') \<longleftrightarrow> value_at m keyEnd \<noteq> val"
    unfolding set set_assigned_table using lt by (auto split: if_splits)
  have 2: "\<forall>v. (keyEnd, v) \<in> set (m_map m') \<longrightarrow> v = value_at m keyEnd"
    unfolding set set_assigned_table using lt by (auto split: if_splits)
  from a l 1 2 show ?thesis by blast
qed

theorem assign_end_boundary_witness:
  "sorted_keys (m_map \<lparr>m_valBegin = CHR ''A'', m_map = [(5::int, CHR ''B''), (10, CHR ''A'')]\<rparr>) \<and>
   m_map \<lparr>m_valBegin = CHR ''A'', m_map = [(5::int, CHR ''B''), (10, CHR ''A'')]\<rparr> \<noteq> [] \<and>
   (7::int) < 12 \<and> (6::int) < 8 \<and>
   lookup \<lparr>m_valBegin = CHR ''A'', m_map = [(5::int, CHR ''B''), (10, CHR ''A'')]\<rparr> 12
     = Some (CHR ''A'') \<and>
   (\<exists>m'. assign \<lparr>m_valBegin = CHR ''A'', m_map = [(5::int, CHR ''B''), (10, CHR ''A'')]\<rparr>
             7 12 (CHR ''C'') = Some m' \<and>
         12 \<in> fst ` set (m_map m') \<and> (12, CHR ''A'') \<in> set (m_map m')) \<and>
   lookup \<lparr>m_valBegin = CHR ''A'', m_map = [(5::int, CHR ''B''), (10, CHR ''A'')]\<rparr> 8
     = Some (CHR ''B'') \<and>
   (\<exists>m'. assign \<lparr>m_valBegin = CHR ''A'', m_map = [(5::int, CHR ''B''), (10, CHR ''A'')]\<rparr>
             6 8 (CHR ''B'') = Some m' \<and>
         8 \<notin> fst ` set (m_map m'))"
proof -
  let ?m = "\<lparr>m_valBegin = CHR ''A'', m_map = [(5::int, CHR ''B''), (10, CHR ''A'')]\<rparr>"
  have s: "sorted_keys (m_map ?m)" by (simp add: sorted_keys_def)
  have ne: "m_map ?m \<noteq> []" by simp
  have lt1: "(7::int) < 12" and lt2: "(6::int) < 8" by simp_all
  have l12: "lookup ?m 12 = Some (CHR ''A'')" and l8: "lookup ?m 8 = Some (CHR ''B'')"
    by (simp_all add: eval_defs)
  from assign_end_boundary [OF s ne lt1, of "CHR ''C''"] l12 obtain m1 where
    m1: "assign ?m 7 12 (CHR ''C'') = Some m1" "12 \<in> fst ` set (m_map m1)"
      "\<forall>v. (12, v) \<in> set (m_map m1) \<longrightarrow> v = CHR ''A''"
    by auto
  from m1(2,3) have in1: "(12, CHR ''A'') \<in> set (m_map m1)" by force
  from assign_end_boundary [OF s ne lt2, of "CHR ''B''"] l8 obtain m2 where
    m2: "assign ?m 6 8 (CHR ''B'') = Some m2" "8 \<notin> fst ` set (m_map m2)"
    by auto
  from s ne lt1 lt2 l12 l8 m1(1,2) in1 m2 show ?thesis by blast
qed

text \<open>
  C7. A call \<open>assign(keyBegin, keyEnd, val)\<close> with \<open>keyBegin < keyEnd\<close> on a table that is not
  empty returns, and the table then has the entry \<open>(keyBegin, val)\<close> if and only if the value
  that applies immediately below \<open>keyBegin\<close> once the span is erased (the default value when
  no entry precedes \<open>keyBegin\<close>) differs from \<open>val\<close>; when it equals \<open>val\<close> the table has no
  entry at \<open>keyBegin\<close>.
\<close>

theorem assign_begin_boundary:
  assumes s: "sorted_keys (m_map m)" and ne: "m_map m \<noteq> []" and lt: "keyBegin < keyEnd"
  shows "\<exists>m'. assign m keyBegin keyEnd val = Some m' \<and>
     ((keyBegin, val) \<in> set (m_map m') \<longleftrightarrow>
        value_below (span_removed m keyBegin keyEnd) keyBegin \<noteq> val) \<and>
     (value_below (span_removed m keyBegin keyEnd) keyBegin = val \<longrightarrow>
        keyBegin \<notin> fst ` set (m_map m'))"
proof -
  define m' where "m' = m\<lparr>m_map := assigned_table m keyBegin keyEnd val\<rparr>"
  have a: "assign m keyBegin keyEnd val = Some m'"
    unfolding m'_def using s ne lt by (rule assign_nonempty)
  have vb: "value_below (span_removed m keyBegin keyEnd) keyBegin = value_below m keyBegin"
    using lt by (intro value_below_span_removed) simp
  have set: "set (m_map m') = set (assigned_table m keyBegin keyEnd val)"
    by (simp add: m'_def)
  have 1: "(keyBegin, val) \<in> set (m_map m') \<longleftrightarrow> value_below m keyBegin \<noteq> val"
    unfolding set set_assigned_table using lt by (auto split: if_splits)
  have 2: "value_below m keyBegin = val \<longrightarrow> keyBegin \<notin> fst ` set (m_map m')"
    unfolding set set_assigned_table using lt by (auto split: if_splits)
  from a 1 2 show ?thesis unfolding vb by blast
qed

theorem assign_begin_boundary_witness:
  "sorted_keys (m_map \<lparr>m_valBegin = CHR ''A'', m_map = [(5::int, CHR ''B''), (10, CHR ''A'')]\<rparr>) \<and>
   m_map \<lparr>m_valBegin = CHR ''A'', m_map = [(5::int, CHR ''B''), (10, CHR ''A'')]\<rparr> \<noteq> [] \<and>
   (7::int) < 12 \<and> (6::int) < 8 \<and>
   value_below (span_removed
      \<lparr>m_valBegin = CHR ''A'', m_map = [(5::int, CHR ''B''), (10, CHR ''A'')]\<rparr> 7 12) 7
     = CHR ''B'' \<and>
   (\<exists>m'. assign \<lparr>m_valBegin = CHR ''A'', m_map = [(5::int, CHR ''B''), (10, CHR ''A'')]\<rparr>
             7 12 (CHR ''C'') = Some m' \<and>
         (7, CHR ''C'') \<in> set (m_map m')) \<and>
   value_below (span_removed
      \<lparr>m_valBegin = CHR ''A'', m_map = [(5::int, CHR ''B''), (10, CHR ''A'')]\<rparr> 6 8) 6
     = CHR ''B'' \<and>
   (\<exists>m'. assign \<lparr>m_valBegin = CHR ''A'', m_map = [(5::int, CHR ''B''), (10, CHR ''A'')]\<rparr>
             6 8 (CHR ''B'') = Some m' \<and>
         6 \<notin> fst ` set (m_map m'))"
proof -
  let ?m = "\<lparr>m_valBegin = CHR ''A'', m_map = [(5::int, CHR ''B''), (10, CHR ''A'')]\<rparr>"
  have s: "sorted_keys (m_map ?m)" by (simp add: sorted_keys_def)
  have ne: "m_map ?m \<noteq> []" by simp
  have lt1: "(7::int) < 12" and lt2: "(6::int) < 8" by simp_all
  have v7: "value_below (span_removed ?m 7 12) 7 = CHR ''B''"
    and v6: "value_below (span_removed ?m 6 8) 6 = CHR ''B''"
    by (simp_all add: value_below_def span_removed_def)
  from assign_begin_boundary [OF s ne lt1, of "CHR ''C''"] obtain m1 where
    m1: "assign ?m 7 12 (CHR ''C'') = Some m1" "(7, CHR ''C'') \<in> set (m_map m1)"
    unfolding v7 by auto
  from assign_begin_boundary [OF s ne lt2, of "CHR ''B''"] obtain m2 where
    m2: "assign ?m 6 8 (CHR ''B'') = Some m2" "6 \<notin> fst ` set (m_map m2)"
    unfolding v6 by auto
  from s ne lt1 lt2 v7 v6 m1 m2 show ?thesis by blast
qed

section \<open>The redundancy-free form\<close>

text \<open>
  Outside the empty-table branch \<open>assign\<close> keeps the table redundancy-free
  (\<open>assign_canonical\<close>), a redundancy-free table is determined by its look-ups
  (\<open>canonical_unique_aux\<close>), and so re-assigning a value that already holds on the whole
  range leaves a redundancy-free, non-empty table as it is (\<open>assign_matching_noop\<close>).
\<close>

lemma canonical_iff: "canonical m \<longleftrightarrow> distinct_adj (m_valBegin m # map snd (m_map m))"
  by (cases "m_map m") (auto simp: canonical_def distinct_adj_Cons)

lemma sorted_keys_Cons:
  "sorted_keys (p # t) \<longleftrightarrow> (\<forall>q\<in>set t. fst p < fst q) \<and> sorted_keys t"
  by (auto simp: sorted_keys_def)

lemma filter_le_first:
  "sorted_keys (p # t) \<Longrightarrow> filter (\<lambda>q. fst q \<le> fst p) t = []"
  by (auto simp: sorted_keys_Cons filter_empty_conv)

lemma filter_le_below_first:
  "sorted_keys (p # t) \<Longrightarrow> key < fst p \<Longrightarrow> filter (\<lambda>q. fst q \<le> key) (p # t) = []"
  by (fastforce simp: sorted_keys_Cons filter_empty_conv)

lemma table_differs_from_empty:
  assumes s: "sorted_keys (p # t)" and c: "distinct_adj (d # map snd (p # t))"
  shows "last (d # map snd (filter (\<lambda>q. fst q \<le> fst p) (p # t))) \<noteq> d"
  using c by (auto simp: filter_le_first [OF s])

lemma canonical_unique_aux:
  "sorted_keys t1 \<Longrightarrow> sorted_keys t2 \<Longrightarrow>
   distinct_adj (d # map snd t1) \<Longrightarrow> distinct_adj (d # map snd t2) \<Longrightarrow>
   (\<And>key. last (d # map snd (filter (\<lambda>p. fst p \<le> key) t1)) =
           last (d # map snd (filter (\<lambda>p. fst p \<le> key) t2))) \<Longrightarrow>
   t1 = t2"
proof (induction t1 arbitrary: t2 d)
  case Nil
  show ?case
  proof (cases t2)
    case Nil
    then show ?thesis by simp
  next
    case (Cons p2 r2)
    from table_differs_from_empty [of p2 r2 d] Nil.prems(2,4) Nil.prems(5) [of "fst p2"]
    show ?thesis unfolding Cons by simp
  qed
next
  case (Cons p1 r1)
  show ?case
  proof (cases t2)
    case Nil
    from table_differs_from_empty [of p1 r1 d] Cons.prems(1,3) Cons.prems(5) [of "fst p1"]
    show ?thesis unfolding Nil by simp
  next
    case c2: (Cons p2 r2)
    have s1: "sorted_keys (p1 # r1)" and s2: "sorted_keys (p2 # r2)"
      using Cons.prems(1,2) by (simp_all add: c2)
    have d1: "distinct_adj (d # map snd (p1 # r1))" and d2: "distinct_adj (d # map snd (p2 # r2))"
      using Cons.prems(3,4) by (simp_all add: c2)
    have eq: "last (d # map snd (filter (\<lambda>p. fst p \<le> key) (p1 # r1))) =
              last (d # map snd (filter (\<lambda>p. fst p \<le> key) (p2 # r2)))" for key
      using Cons.prems(5) [of key] by (simp add: c2)
    have k: "fst p1 = fst p2"
    proof (rule ccontr)
      assume "fst p1 \<noteq> fst p2"
      then consider "fst p1 < fst p2" | "fst p2 < fst p1" by fastforce
      then show False
      proof cases
        case 1
        from eq [of "fst p1"] table_differs_from_empty [OF s1 d1]
        show False unfolding filter_le_below_first [OF s2 1] by simp
      next
        case 2
        from eq [of "fst p2"] table_differs_from_empty [OF s2 d2]
        show False unfolding filter_le_below_first [OF s1 2] by simp
      qed
    qed
    have v: "snd p1 = snd p2"
      using eq [of "fst p1"] filter_le_first [OF s1] filter_le_first [OF s2] k by simp
    have p: "p1 = p2" using k v by (simp add: prod_eq_iff)
    have "r1 = r2"
    proof (rule Cons.IH [of r2 "snd p1"])
      show "sorted_keys r1" "sorted_keys r2"
        using s1 s2 by (simp_all add: sorted_keys_Cons)
      show "distinct_adj (snd p1 # map snd r1)" using d1 by simp
      show "distinct_adj (snd p1 # map snd r2)" using d2 v by simp
      show "last (snd p1 # map snd (filter (\<lambda>p. fst p \<le> key) r1)) =
            last (snd p1 # map snd (filter (\<lambda>p. fst p \<le> key) r2))" for key
      proof (cases "fst p1 \<le> key")
        case True
        then show ?thesis using eq [of key] k v by simp
      next
        case False
        then have lt: "key < fst p1" by simp
        have "filter (\<lambda>p. fst p \<le> key) r1 = []"
          using filter_le_below_first [OF s1 lt] False by simp
        moreover have "filter (\<lambda>p. fst p \<le> key) r2 = []"
          using filter_le_below_first [OF s2, of key] lt False k by simp
        ultimately show ?thesis by simp
      qed
    qed
    with p show ?thesis by (simp add: c2)
  qed
qed


lemma filter_lt_ge_append:
  "sorted_keys t \<Longrightarrow> filter (\<lambda>p. fst p < key) t @ filter (\<lambda>p. key \<le> fst p) t = t"
proof (induction t)
  case Nil
  show ?case by simp
next
  case (Cons p t)
  then have gt: "\<forall>q\<in>set t. fst p < fst q" and st: "sorted_keys t"
    by (simp_all add: sorted_keys_Cons)
  show ?case
  proof (cases "fst p < key")
    case True
    with Cons.IH [OF st] show ?thesis by simp
  next
    case False
    with gt have "\<forall>q\<in>set t. \<not> fst q < key" by fastforce
    then have "filter (\<lambda>p. fst p < key) t = []" by (simp add: filter_empty_conv)
    with False Cons.IH [OF st] show ?thesis by simp
  qed
qed

lemma distinct_adj_splice:
  assumes "distinct_adj P" "P \<noteq> []" "distinct_adj Q" "Q = [] \<or> ve \<noteq> hd Q"
  shows "distinct_adj (P @ (if last P = val then [] else [val]) @
                       (if ve = val then [] else [ve]) @ Q)"
  using assms by (auto simp: distinct_adj_append_iff distinct_adj_Cons)

lemma canonical_assigned_table:
  assumes s: "sorted_keys (m_map m)" and c: "canonical m" and lt: "keyBegin < keyEnd"
  shows "canonical (m\<lparr>m_map := assigned_table m keyBegin keyEnd val\<rparr>)"
proof -
  define d where "d = m_valBegin m"
  define t where "t = m_map m"
  define pre where "pre = filter (\<lambda>p. fst p < keyBegin) t"
  define rest where "rest = filter (\<lambda>p. keyBegin \<le> fst p) t"
  define low where "low = filter (\<lambda>p. fst p \<le> keyEnd) t"
  define post where "post = filter (\<lambda>p. keyEnd < fst p) t"
  have st: "sorted_keys t" using s by (simp add: t_def)
  have da: "distinct_adj (d # map snd t)" using c by (simp add: canonical_iff d_def t_def)
  have "t = pre @ rest" unfolding pre_def rest_def by (rule filter_lt_ge_append [OF st, symmetric])
  then have "distinct_adj ((d # map snd pre) @ map snd rest)" using da by simp
  then have dpre: "distinct_adj (d # map snd pre)" by (rule distinct_adj_appendD1)
  have "t = low @ post" unfolding low_def post_def by (rule filter_le_gt_append [OF st, symmetric])
  then have "distinct_adj ((d # map snd low) @ map snd post)" using da by simp
  then have "distinct_adj (d # map snd low) \<and> distinct_adj (map snd post) \<and>
      (d # map snd low = [] \<or> map snd post = [] \<or>
       last (d # map snd low) \<noteq> hd (map snd post))"
    by (simp only: distinct_adj_append_iff)
  then have dpost: "distinct_adj (map snd post)"
    and link: "post = [] \<or> last (d # map snd low) \<noteq> hd (map snd post)"
    by auto
  have vb: "value_below m keyBegin = last (d # map snd pre)"
    by (simp add: value_below_def d_def pre_def t_def)
  have ve: "value_at m keyEnd = last (d # map snd low)"
    by (simp add: value_at_def d_def low_def t_def)
  define B where "B = (if value_below m keyBegin = val then [] else [val])"
  define E where "E = (if value_at m keyEnd = val then [] else [value_at m keyEnd])"
  have vals: "m_valBegin m # map snd (assigned_table m keyBegin keyEnd val) =
      (d # map snd pre) @ B @ E @ map snd post"
    by (simp add: assigned_table_def d_def pre_def post_def t_def B_def E_def)
  have "post = [] \<or> value_at m keyEnd \<noteq> hd (map snd post)"
    using link by (simp only: ve)
  then have "map snd post = [] \<or> value_at m keyEnd \<noteq> hd (map snd post)" by auto
  from distinct_adj_splice [OF dpre _ dpost this, of val]
  have "distinct_adj ((d # map snd pre) @ B @ E @ map snd post)"
    by (simp only: B_def E_def vb) simp
  then show ?thesis by (simp add: canonical_iff vals)
qed

lemma assign_canonical:
  assumes s: "sorted_keys (m_map m)" and c: "canonical m"
    and ok: "\<not> (keyBegin < keyEnd \<and> m_map m = [] \<and> val = m_valBegin m)"
    and a: "assign m keyBegin keyEnd val = Some m'"
  shows "canonical m'"
proof -
  have m': "m' = (if \<not> keyBegin < keyEnd then m
      else if m_map m = [] then m\<lparr>m_map := [(keyBegin, val), (keyEnd, m_valBegin m)]\<rparr>
      else m\<lparr>m_map := assigned_table m keyBegin keyEnd val\<rparr>)"
    using a assign_cases [OF s, of keyBegin keyEnd val] by simp
  show ?thesis
  proof (cases "keyBegin < keyEnd")
    case False
    then show ?thesis using m' c by simp
  next
    case True
    show ?thesis
    proof (cases "m_map m = []")
      case e: True
      with ok True have "val \<noteq> m_valBegin m" by simp
      then show ?thesis using m' True e by (auto simp: canonical_def)
    next
      case False
      then show ?thesis
        using m' True canonical_assigned_table [OF s c True, of val] by simp
    qed
  qed
qed

lemma assign_matching_noop:
  assumes s: "sorted_keys (m_map m)" and c: "canonical m" and ne: "m_map m \<noteq> []"
    and lt: "keyBegin < keyEnd"
    and same: "\<And>key. keyBegin \<le> key \<Longrightarrow> key < keyEnd \<Longrightarrow> lookup m key = Some val"
  shows "assign m keyBegin keyEnd val = Some m"
proof -
  define t' where "t' = assigned_table m keyBegin keyEnd val"
  have a: "assign m keyBegin keyEnd val = Some (m\<lparr>m_map := t'\<rparr>)"
    unfolding t'_def using s ne lt by (rule assign_nonempty)
  have s': "sorted_keys t'" unfolding t'_def by (rule sorted_keys_assigned_table [OF s lt])
  have c': "canonical (m\<lparr>m_map := t'\<rparr>)"
    unfolding t'_def by (rule canonical_assigned_table [OF s c lt])
  have l: "lookup m key = Some (value_at m key)" for key
    using lookup_filter [OF s, of key] by (simp add: value_at_def)
  have "value_at (m\<lparr>m_map := t'\<rparr>) key = value_at m key" for key
    unfolding t'_def value_at_assigned_table [OF s lt]
    using same [of key] l [of key] by auto
  then have "last (m_valBegin m # map snd (filter (\<lambda>p. fst p \<le> key) t')) =
             last (m_valBegin m # map snd (filter (\<lambda>p. fst p \<le> key) (m_map m)))" for key
    by (simp add: value_at_def)
  with s' s have "t' = m_map m"
    using c c' by (intro canonical_unique_aux [of t' "m_map m" "m_valBegin m"])
      (simp_all add: canonical_iff)
  with a show ?thesis by simp
qed

text \<open>
  C2. The claim fails on the code: the empty-table branch of \<open>assign\<close> inserts both
  entries without the test \<open>differsFromDefault\<close> that the other branch makes. On a fresh map
  with default \<open>'A'\<close> the single call \<open>assign(1, 2, 'A')\<close> leaves the table
  \<open>{1:A, 2:A}\<close>, whose first entry carries the default value and whose two consecutive
  entries carry equal values.
\<close>

theorem default_assign_not_canonical:
  "assigns (interval_map_ctor (CHR ''A'')) [(1::int, 2, CHR ''A'')] =
     Some \<lparr>m_valBegin = CHR ''A'', m_map = [(1, CHR ''A''), (2, CHR ''A'')]\<rparr> \<and>
   \<not> canonical \<lparr>m_valBegin = CHR ''A'', m_map = [(1::int, CHR ''A''), (2, CHR ''A'')]\<rparr>"
  by (simp add: eval_defs canonical_def)

text \<open>
  C3. The claim fails on the code, by the same branch: on a fresh map with default \<open>'A'\<close>
  every key already maps to \<open>'A'\<close>, yet \<open>assign(1, 2, 'A')\<close> takes the table from no entry to
  two entries.
\<close>

theorem default_assign_grows_table:
  "(\<forall>key. lookup (interval_map_ctor (CHR ''A'') :: (int, char) interval_map) key
      = Some (CHR ''A'')) \<and>
   length (m_map (interval_map_ctor (CHR ''A'') :: (int, char) interval_map)) = 0 \<and>
   (\<exists>m'. assign (interval_map_ctor (CHR ''A'')) (1::int) 2 (CHR ''A'') = Some m' \<and>
         length (m_map m') = 2)"
  by (simp add: eval_defs)

end
